theory Spec2Isabelle
  imports Main "HOL-Library.Sublist"
begin

section \<open>The document tree\<close>

text \<open>
  The package queries a tree of \<^verbatim>\<open>html.Node\<close> values built by the HTML parser. A node
  carries its type, its data (the tag name of an element, the content of a text node), its
  attribute list and its children in sibling order. The links \<^verbatim>\<open>FirstChild\<close>,
  \<^verbatim>\<open>NextSibling\<close>, \<^verbatim>\<open>PrevSibling\<close> of the Go structure are the positions in the
  list of children.

  A string is the sequence of its code points, each below U+0100.
\<close>

datatype NodeType = ErrorNode | TextNode | DocumentNode | ElementNode | CommentNode | DoctypeNode

datatype Attribute = Attribute (Namespace: string) (Key: string) (Val: string)

datatype Node = Node (Type: NodeType) (Data: string) (Attr: "Attribute list") (Children: "Node list")

text \<open>
  A \<^verbatim>\<open>*html.Node\<close> is the address of a node of the document: the child indices on the
  way from the document's root. The document itself is the store the addresses are read
  from; no function of the package writes to it.
\<close>

type_synonym pointer = "nat list"

fun deref :: "Node \<Rightarrow> pointer \<Rightarrow> Node option" where
  "deref n [] = Some n"
| "deref n (i # p) = (if i < length (Children n) then deref (Children n ! i) p else None)"



text \<open>
  What stops a Go call without a result: reading through a nil pointer, and indexing a
  slice out of range.
\<close>

datatype panic = NilPointerDereference | IndexOutOfRange

section \<open>Root, wrapNode, wrapErr\<close>

record Root =
  Pointer :: "pointer option"
  NodeValue :: string
  Error :: "string option"

definition wrapNode :: "Node \<Rightarrow> pointer option \<Rightarrow> panic + Root" where
  "wrapNode doc n =
     (case n of
        None \<Rightarrow> Inl NilPointerDereference
      | Some p \<Rightarrow>
          (case deref doc p of
             None \<Rightarrow> Inl NilPointerDereference
           | Some node \<Rightarrow> Inr \<lparr>Pointer = Some p, NodeValue = Data node, Error = None\<rparr>))"

definition wrapErr :: "string \<Rightarrow> Root" where
  "wrapErr err = \<lparr>Pointer = None, NodeValue = [], Error = Some err\<rparr>"

text \<open>\<^verbatim>\<open>wrapErrf\<close> formats its message and wraps it; the callers below pass the formatted text.\<close>

definition wrapErrf :: "string \<Rightarrow> Root" where
  "wrapErrf msg = wrapErr msg"

section \<open>Attribute matching\<close>

text \<open>\<^verbatim>\<open>unicode.IsSpace\<close> on the code points below U+0100.\<close>

definition isSpace :: "char \<Rightarrow> bool" where
  "isSpace c = (of_char c \<in> {9, 10, 11, 12, 13, 32, 133, 160 :: nat})"

text \<open>
  \<^verbatim>\<open>strings.Fields\<close>: the maximal runs of characters that are not white space, in order.
  The first argument is the field being read.
\<close>

fun Fields_from :: "string \<Rightarrow> string \<Rightarrow> string list" where
  "Fields_from field [] = (if field = [] then [] else [field])"
| "Fields_from field (c # s) =
     (if isSpace c
      then (if field = [] then Fields_from [] s else field # Fields_from [] s)
      else Fields_from (field @ [c]) s)"

definition Fields :: "string \<Rightarrow> string list" where
  "Fields s = Fields_from [] s"

text \<open>\<^verbatim>\<open>strings.Join\<close>.\<close>

fun Join :: "string list \<Rightarrow> string \<Rightarrow> string" where
  "Join [] sep = []"
| "Join [x] sep = x"
| "Join (x # y # ys) sep = x @ sep @ Join (y # ys) sep"

definition attributeAndValueEquals :: "Attribute \<Rightarrow> string \<Rightarrow> string \<Rightarrow> bool" where
  "attributeAndValueEquals attr key val = (Key attr = key \<and> Val attr = val)"

fun attributeContainsValue_range :: "string list \<Rightarrow> string \<Rightarrow> bool" where
  "attributeContainsValue_range [] val = False"
| "attributeContainsValue_range (f # fs) val =
     (if f = val then True else attributeContainsValue_range fs val)"

definition attributeContainsValue :: "Attribute \<Rightarrow> string \<Rightarrow> string \<Rightarrow> bool" where
  "attributeContainsValue attr key val =
     (if Key attr \<noteq> key then False
      else attributeContainsValue_range (Fields (Val attr)) val)"

section \<open>findOnce\<close>

text \<open>
  The loop over \<^verbatim>\<open>n.Attr\<close>: each round reads \<^verbatim>\<open>args[1]\<close> and \<^verbatim>\<open>args[2]\<close>
  before it tests the attribute. \<open>Inr True\<close> is the \<^verbatim>\<open>return n, true\<close> of the loop.
\<close>

fun findOnce_attrs :: "Attribute list \<Rightarrow> string list \<Rightarrow> bool \<Rightarrow> panic + bool" where
  "findOnce_attrs [] args strict = Inr False"
| "findOnce_attrs (attr # rest) args strict =
     (if length args < 3 then Inl IndexOutOfRange
      else
        (let searchAttrName = args ! 1; searchAttrVal = args ! 2 in
         if (strict \<and> attributeAndValueEquals attr searchAttrName searchAttrVal) \<or>
            (\<not> strict \<and> attributeContainsValue attr searchAttrName searchAttrVal)
         then Inr True
         else findOnce_attrs rest args strict))"

text \<open>The body of \<^verbatim>\<open>if uni == true\<close>: whether the node itself is returned.\<close>

definition findOnce_self :: "Node \<Rightarrow> string list \<Rightarrow> bool \<Rightarrow> panic + bool" where
  "findOnce_self n args strict =
     (if Type n = ElementNode then
        (if args = [] then Inl IndexOutOfRange
         else if Data n = args ! 0 then
           (if 1 < length args \<and> length args < 4 then findOnce_attrs (Attr n) args strict
            else if length args = 1 then Inr True
            else Inr False)
         else Inr False)
      else Inr False)"

text \<open>
  \<^verbatim>\<open>findOnce\<close> takes the address of \<open>n\<close> with the node it points to. The loop over the
  children runs over the list of children, with the index of the child at hand.
  \<open>Inr (Some q)\<close> is the result \<^verbatim>\<open>(q, true)\<close>, \<open>Inr None\<close> is \<^verbatim>\<open>(nil, false)\<close>.
\<close>

fun findOnce :: "pointer \<Rightarrow> Node \<Rightarrow> string list \<Rightarrow> bool \<Rightarrow> bool \<Rightarrow> panic + pointer option"
and findOnce_children :: "pointer \<Rightarrow> nat \<Rightarrow> Node list \<Rightarrow> string list \<Rightarrow> bool \<Rightarrow> panic + pointer option"
where
  "findOnce p (Node t d a cs) args uni strict =
     (case (if uni then findOnce_self (Node t d a cs) args strict else Inr False) of
        Inl e \<Rightarrow> Inl e
      | Inr found \<Rightarrow>
          if found then Inr (Some p)
          else findOnce_children p 0 cs args strict)"
| "findOnce_children p i [] args strict = Inr None"
| "findOnce_children p i (c # cs) args strict =
     (case findOnce (p @ [i]) c args True strict of
        Inl e \<Rightarrow> Inl e
      | Inr (Some q) \<Rightarrow> Inr (Some q)
      | Inr None \<Rightarrow> findOnce_children p (Suc i) cs args strict)"

section \<open>findAllofem\<close>

text \<open>
  The closure \<^verbatim>\<open>f\<close> appends to the captured slice \<^verbatim>\<open>nodeLinks\<close>; here the slice is
  passed in and returned.
\<close>

fun findAllofem_attrs ::
  "pointer \<Rightarrow> Attribute list \<Rightarrow> string list \<Rightarrow> bool \<Rightarrow> pointer list \<Rightarrow> panic + pointer list" where
  "findAllofem_attrs p [] args strict nodeLinks = Inr nodeLinks"
| "findAllofem_attrs p (attr # rest) args strict nodeLinks =
     (if length args < 3 then Inl IndexOutOfRange
      else
        (let searchAttrName = args ! 1; searchAttrVal = args ! 2 in
         if (strict \<and> attributeAndValueEquals attr searchAttrName searchAttrVal) \<or>
            (\<not> strict \<and> attributeContainsValue attr searchAttrName searchAttrVal)
         then findAllofem_attrs p rest args strict (nodeLinks @ [p])
         else findAllofem_attrs p rest args strict nodeLinks))"

definition findAllofem_self ::
  "pointer \<Rightarrow> Node \<Rightarrow> string list \<Rightarrow> bool \<Rightarrow> pointer list \<Rightarrow> panic + pointer list" where
  "findAllofem_self p n args strict nodeLinks =
     (if args = [] then Inl IndexOutOfRange
      else if Data n = args ! 0 then
        (if 1 < length args \<and> length args < 4 then findAllofem_attrs p (Attr n) args strict nodeLinks
         else if length args = 1 then Inr (nodeLinks @ [p])
         else Inr nodeLinks)
      else Inr nodeLinks)"

fun findAllofem_f ::
  "pointer \<Rightarrow> Node \<Rightarrow> string list \<Rightarrow> bool \<Rightarrow> bool \<Rightarrow> pointer list \<Rightarrow> panic + pointer list"
and findAllofem_children ::
  "pointer \<Rightarrow> nat \<Rightarrow> Node list \<Rightarrow> string list \<Rightarrow> bool \<Rightarrow> pointer list \<Rightarrow> panic + pointer list"
where
  "findAllofem_f p (Node t d a cs) args uni strict nodeLinks =
     (case (if uni then findAllofem_self p (Node t d a cs) args strict nodeLinks else Inr nodeLinks) of
        Inl e \<Rightarrow> Inl e
      | Inr nodeLinks' \<Rightarrow> findAllofem_children p 0 cs args strict nodeLinks')"
| "findAllofem_children p i [] args strict nodeLinks = Inr nodeLinks"
| "findAllofem_children p i (c # cs) args strict nodeLinks =
     (case findAllofem_f (p @ [i]) c args True strict nodeLinks of
        Inl e \<Rightarrow> Inl e
      | Inr nodeLinks' \<Rightarrow> findAllofem_children p (Suc i) cs args strict nodeLinks')"

definition findAllofem :: "pointer \<Rightarrow> Node \<Rightarrow> string list \<Rightarrow> bool \<Rightarrow> panic + pointer list" where
  "findAllofem p n args strict = findAllofem_f p n args False strict []"

section \<open>Find, FindStrict, FindAll, FindAllStrict\<close>

definition notFound :: "string list \<Rightarrow> string" where
  "notFound args =
     ''element `'' @ args ! 0 @ ''` with attributes `'' @ Join (tl args) '' '' @ ''` not found''"

definition Find :: "Node \<Rightarrow> Root \<Rightarrow> string list \<Rightarrow> panic + Root" where
  "Find doc r args =
     (if length args = 0 then Inr (wrapErrf ''not enough arguments'')
      else
        (case Pointer r of
           None \<Rightarrow> Inl NilPointerDereference
         | Some p \<Rightarrow>
             (case deref doc p of
                None \<Rightarrow> Inl NilPointerDereference
              | Some n \<Rightarrow>
                  (case findOnce p n args False False of
                     Inl e \<Rightarrow> Inl e
                   | Inr None \<Rightarrow> Inr (wrapErrf (notFound args))
                   | Inr (Some temp) \<Rightarrow> wrapNode doc (Some temp)))))"

definition FindStrict :: "Node \<Rightarrow> Root \<Rightarrow> string list \<Rightarrow> panic + Root" where
  "FindStrict doc r args =
     (if length args = 0 then Inr (wrapErrf ''not enough arguments'')
      else
        (case Pointer r of
           None \<Rightarrow> Inl NilPointerDereference
         | Some p \<Rightarrow>
             (case deref doc p of
                None \<Rightarrow> Inl NilPointerDereference
              | Some n \<Rightarrow>
                  (case findOnce p n args False True of
                     Inl e \<Rightarrow> Inl e
                   | Inr None \<Rightarrow> Inr (wrapErrf (notFound args))
                   | Inr (Some temp) \<Rightarrow> wrapNode doc (Some temp)))))"

text \<open>The loop that wraps every pointer of \<^verbatim>\<open>temp\<close>; a nil slice is the empty list.\<close>

fun wrapAll :: "Node \<Rightarrow> pointer list \<Rightarrow> panic + Root list" where
  "wrapAll doc [] = Inr []"
| "wrapAll doc (t # ts) =
     (case wrapNode doc (Some t) of
        Inl e \<Rightarrow> Inl e
      | Inr w \<Rightarrow> (case wrapAll doc ts of Inl e \<Rightarrow> Inl e | Inr ws \<Rightarrow> Inr (w # ws)))"

definition FindAll :: "Node \<Rightarrow> Root \<Rightarrow> string list \<Rightarrow> panic + Root list" where
  "FindAll doc r args =
     (case Pointer r of
        None \<Rightarrow> Inl NilPointerDereference
      | Some p \<Rightarrow>
          (case deref doc p of
             None \<Rightarrow> Inl NilPointerDereference
           | Some n \<Rightarrow>
               (case findAllofem p n args False of
                  Inl e \<Rightarrow> Inl e
                | Inr temp \<Rightarrow> if length temp = 0 then Inr [] else wrapAll doc temp)))"

definition FindAllStrict :: "Node \<Rightarrow> Root \<Rightarrow> string list \<Rightarrow> panic + Root list" where
  "FindAllStrict doc r args =
     (case Pointer r of
        None \<Rightarrow> Inl NilPointerDereference
      | Some p \<Rightarrow>
          (case deref doc p of
             None \<Rightarrow> Inl NilPointerDereference
           | Some n \<Rightarrow>
               (case findAllofem p n args True of
                  Inl e \<Rightarrow> Inl e
                | Inr temp \<Rightarrow> if length temp = 0 then Inr [] else wrapAll doc temp)))"

section \<open>Element siblings\<close>





section \<open>Attrs\<close>

fun getKeyValue_range :: "(string \<rightharpoonup> string) \<Rightarrow> Attribute list \<Rightarrow> (string \<rightharpoonup> string)" where
  "getKeyValue_range kv [] = kv"
| "getKeyValue_range kv (attr # attrs) = getKeyValue_range (kv(Key attr \<mapsto> Val attr)) attrs"

definition getKeyValue :: "Attribute list \<Rightarrow> (string \<rightharpoonup> string)" where
  "getKeyValue attrs = getKeyValue_range Map.empty attrs"

text \<open>The result \<open>None\<close> is the nil map that \<^verbatim>\<open>Attrs\<close> returns for a node that is no element.\<close>

definition Attrs :: "Node \<Rightarrow> Root \<Rightarrow> panic + (string \<rightharpoonup> string) option" where
  "Attrs doc r =
     (case Pointer r of
        None \<Rightarrow> Inl NilPointerDereference
      | Some p \<Rightarrow>
          (case deref doc p of
             None \<Rightarrow> Inl NilPointerDereference
           | Some n \<Rightarrow>
               if Type n \<noteq> ElementNode then Inr None
               else Inr (Some (getKeyValue (Attr n)))))"

section \<open>Text and FullText\<close>

text \<open>The string builder \<open>s\<close> is passed in and returned.\<close>

fun Text_children :: "string \<Rightarrow> Node list \<Rightarrow> string" where
  "Text_children s [] = s"
| "Text_children s (k # ks) =
     Text_children (if Type k = TextNode then s @ Data k else s) ks"

definition Text :: "Node \<Rightarrow> Root \<Rightarrow> panic + string" where
  "Text doc r =
     (case Pointer r of
        None \<Rightarrow> Inl NilPointerDereference
      | Some p \<Rightarrow>
          (case deref doc p of
             None \<Rightarrow> Inl NilPointerDereference
           | Some n \<Rightarrow>
               if Type n = TextNode then Inr (Data n)
               else Inr (Text_children [] (Children n))))"

fun fullText :: "string \<Rightarrow> Node \<Rightarrow> string"
and fullText_children :: "string \<Rightarrow> Node list \<Rightarrow> string" where
  "fullText s (Node t d a cs) = (if t = TextNode then s @ d else fullText_children s cs)"
| "fullText_children s [] = s"
| "fullText_children s (k # ks) = fullText_children (fullText s k) ks"

definition FullText :: "Node \<Rightarrow> Root \<Rightarrow> panic + string" where
  "FullText doc r =
     (case Pointer r of
        None \<Rightarrow> Inl NilPointerDereference
      | Some p \<Rightarrow>
          (case deref doc p of
             None \<Rightarrow> Inl NilPointerDereference
           | Some n \<Rightarrow> Inr (fullText [] n)))"

section \<open>Notions of the specification\<close>

text \<open>
  A whitespace-separated token of \<open>s\<close>: a run of characters of \<open>s\<close> that is not empty,
  holds no white space, and is bounded on each side by white space or by the end of \<open>s\<close>.
\<close>

definition isToken :: "string \<Rightarrow> string \<Rightarrow> bool" where
  "isToken v s \<longleftrightarrow>
     v \<noteq> [] \<and> (\<forall>c \<in> set v. \<not> isSpace c) \<and>
     (\<exists>pre post. s = pre @ v @ post \<and> (pre = [] \<or> isSpace (last pre)) \<and>
        (post = [] \<or> isSpace (hd post)))"

text \<open>
  Where a field lies while \<open>Fields_from\<close> reads \<open>s\<close>: it continues the field being read,
  or it starts after some white space of \<open>s\<close>.
\<close>

definition startsField :: "string \<Rightarrow> string \<Rightarrow> string \<Rightarrow> bool" where
  "startsField f v s \<longleftrightarrow>
     (\<exists>w post. v = f @ w \<and> s = w @ post \<and> (post = [] \<or> isSpace (hd post)))"

definition laterField :: "string \<Rightarrow> string \<Rightarrow> bool" where
  "laterField v s \<longleftrightarrow>
     (\<exists>pre post. s = pre @ v @ post \<and> pre \<noteq> [] \<and> isSpace (last pre) \<and>
        (post = [] \<or> isSpace (hd post)))"

text \<open>
  The nodes of the subtree at \<open>p\<close> in document order (depth first, a node before its
  children, the children from first to last), each with its address; and the nodes of the
  subtrees of a list of siblings, the first of them at index \<open>i\<close>.
\<close>

fun preorder :: "pointer \<Rightarrow> Node \<Rightarrow> (pointer \<times> Node) list"
and preorder_children :: "pointer \<Rightarrow> nat \<Rightarrow> Node list \<Rightarrow> (pointer \<times> Node) list" where
  "preorder p (Node t d a cs) = (p, Node t d a cs) # preorder_children p 0 cs"
| "preorder_children p i [] = []"
| "preorder_children p i (c # cs) = preorder (p @ [i]) c @ preorder_children p (Suc i) cs"

text \<open>
  The first node of a sequence that the find-first test returns, and the nodes of a sequence
  that the find-all test appends, every node of the sequence tested in turn.
\<close>

fun firstMatch :: "(pointer \<times> Node) list \<Rightarrow> string list \<Rightarrow> bool \<Rightarrow> panic + pointer option" where
  "firstMatch [] args strict = Inr None"
| "firstMatch ((q, m) # rest) args strict =
     (case findOnce_self m args strict of
        Inl e \<Rightarrow> Inl e
      | Inr found \<Rightarrow> if found then Inr (Some q) else firstMatch rest args strict)"

fun allMatches ::
  "(pointer \<times> Node) list \<Rightarrow> string list \<Rightarrow> bool \<Rightarrow> pointer list \<Rightarrow> panic + pointer list" where
  "allMatches [] args strict nodeLinks = Inr nodeLinks"
| "allMatches ((q, m) # rest) args strict nodeLinks =
     (case findAllofem_self q m args strict nodeLinks of
        Inl e \<Rightarrow> Inl e
      | Inr nodeLinks' \<Rightarrow> allMatches rest args strict nodeLinks')"

text \<open>
  In a parsed document a text node has no children. \<open>textLeaves n\<close> says so of every
  text node of the subtree \<open>n\<close>.
\<close>

fun textLeaves :: "Node \<Rightarrow> bool" where
  "textLeaves (Node t d a cs) = ((t = TextNode \<longrightarrow> cs = []) \<and> (\<forall>c \<in> set cs. textLeaves c))"

section \<open>Fields and tokens\<close>

lemma attributeContainsValue_range_mem:
  "attributeContainsValue_range fs val \<longleftrightarrow> val \<in> set fs"
  by (induction fs) auto

lemma startsField_done: "startsField f f []"
  unfolding startsField_def by (rule exI [of _ "[]"], rule exI [of _ "[]"]) simp

lemma startsField_space: "isSpace c \<Longrightarrow> startsField f f (c # s)"
  unfolding startsField_def by (rule exI [of _ "[]"], rule exI [of _ "c # s"]) simp

lemma startsField_char: "startsField (f @ [c]) v s \<Longrightarrow> startsField f v (c # s)"
  unfolding startsField_def
proof -
  assume "\<exists>w post. v = (f @ [c]) @ w \<and> s = w @ post \<and> (post = [] \<or> isSpace (hd post))"
  then obtain w post where h: "v = (f @ [c]) @ w" "s = w @ post" "post = [] \<or> isSpace (hd post)"
    by blast
  show "\<exists>w post. v = f @ w \<and> c # s = w @ post \<and> (post = [] \<or> isSpace (hd post))"
    by (rule exI [of _ "c # w"], rule exI [of _ post]) (use h in simp)
qed

lemma laterField_first: "isSpace c \<Longrightarrow> startsField [] v s \<Longrightarrow> laterField v (c # s)"
  unfolding startsField_def laterField_def
proof -
  assume c: "isSpace c"
    and "\<exists>w post. v = [] @ w \<and> s = w @ post \<and> (post = [] \<or> isSpace (hd post))"
  then obtain post where h: "s = v @ post" "post = [] \<or> isSpace (hd post)"
    by auto
  show "\<exists>pre post. c # s = pre @ v @ post \<and> pre \<noteq> [] \<and> isSpace (last pre) \<and>
      (post = [] \<or> isSpace (hd post))"
    by (rule exI [of _ "[c]"], rule exI [of _ post]) (use h c in simp)
qed

lemma laterField_Cons: "laterField v s \<Longrightarrow> laterField v (c # s)"
  unfolding laterField_def
proof -
  assume "\<exists>pre post. s = pre @ v @ post \<and> pre \<noteq> [] \<and> isSpace (last pre) \<and>
      (post = [] \<or> isSpace (hd post))"
  then obtain pre post where h: "s = pre @ v @ post" "pre \<noteq> []" "isSpace (last pre)"
    "post = [] \<or> isSpace (hd post)"
    by blast
  show "\<exists>pre post. c # s = pre @ v @ post \<and> pre \<noteq> [] \<and> isSpace (last pre) \<and>
      (post = [] \<or> isSpace (hd post))"
    by (rule exI [of _ "c # pre"], rule exI [of _ post]) (use h in simp)
qed

lemma Fields_from_nonempty: "v \<in> set (Fields_from f s) \<Longrightarrow> v \<noteq> []"
  by (induction s arbitrary: f) (auto split: if_splits)

lemma Fields_from_spaceless:
  "v \<in> set (Fields_from f s) \<Longrightarrow> \<forall>c \<in> set f. \<not> isSpace c \<Longrightarrow> \<forall>c \<in> set v. \<not> isSpace c"
proof (induction s arbitrary: f)
  case Nil
  then show ?case by (simp split: if_splits)
next
  case (Cons c s)
  show ?case
  proof (cases "isSpace c")
    case True
    with Cons.prems(1) have "v = f \<or> v \<in> set (Fields_from [] s)"
      by (simp split: if_splits)
    then show ?thesis
    proof
      assume "v = f" then show ?thesis using Cons.prems(2) by simp
    next
      assume "v \<in> set (Fields_from [] s)"
      from Cons.IH [OF this] show ?thesis by simp
    qed
  next
    case False
    with Cons.prems(1) have m: "v \<in> set (Fields_from (f @ [c]) s)" by simp
    have "\<forall>x \<in> set (f @ [c]). \<not> isSpace x" using Cons.prems(2) False by simp
    from Cons.IH [OF m this] show ?thesis .
  qed
qed

lemma Fields_from_place:
  "v \<in> set (Fields_from f s) \<Longrightarrow> startsField f v s \<or> laterField v s"
proof (induction f s rule: Fields_from.induct)
  case (1 field)
  then have "v = field" by (simp split: if_splits)
  then show ?case using startsField_done by simp
next
  case (2 field c s)
  show ?case
  proof (cases "isSpace c")
    case True
    show ?thesis
    proof (cases "v \<in> set (Fields_from [] s)")
      case mem: True
      have "startsField [] v s \<or> laterField v s"
      proof (cases "field = []")
        case True
        from "2.IH"(1) [OF \<open>isSpace c\<close> True mem] show ?thesis .
      next
        case False
        from "2.IH"(2) [OF \<open>isSpace c\<close> False mem] show ?thesis .
      qed
      then show ?thesis
        using laterField_first [OF True] laterField_Cons by blast
    next
      case False
      with "2.prems" True have "v = field" by (simp split: if_splits)
      then show ?thesis using startsField_space [OF True] by simp
    qed
  next
    case False
    with "2.prems" have "v \<in> set (Fields_from (field @ [c]) s)" by simp
    from "2.IH"(3) [OF False this] show ?thesis
      using startsField_char laterField_Cons by blast
  qed
qed

lemma Fields_from_run:
  "\<forall>c \<in> set v. \<not> isSpace c \<Longrightarrow> Fields_from f (v @ post) = Fields_from (f @ v) post"
  by (induction v arbitrary: f) auto

lemma Fields_from_end:
  "g \<noteq> [] \<Longrightarrow> post = [] \<or> isSpace (hd post) \<Longrightarrow> g \<in> set (Fields_from g post)"
  by (cases post) auto

lemma Fields_from_skip:
  "pre \<noteq> [] \<Longrightarrow> isSpace (last pre) \<Longrightarrow>
   \<exists>ys. Fields_from f (pre @ rest) = ys @ Fields_from [] rest"
proof (induction pre arbitrary: f)
  case Nil
  then show ?case by simp
next
  case (Cons c pre)
  show ?case
  proof (cases "pre = []")
    case True
    with Cons.prems have "isSpace c" by simp
    then have "Fields_from f ((c # pre) @ rest) = (if f = [] then [] else [f]) @ Fields_from [] rest"
      using True by simp
    then show ?thesis by (rule exI)
  next
    case False
    with Cons.prems have l: "isSpace (last pre)" by simp
    show ?thesis
    proof (cases "isSpace c")
      case True
      from Cons.IH [OF False l, of "[]"] obtain ys
        where "Fields_from [] (pre @ rest) = ys @ Fields_from [] rest" by blast
      then have "Fields_from f ((c # pre) @ rest) =
        ((if f = [] then [] else [f]) @ ys) @ Fields_from [] rest"
        using True by simp
      then show ?thesis by (rule exI)
    next
      case nsp: False
      from Cons.IH [OF False l, of "f @ [c]"] obtain ys
        where "Fields_from (f @ [c]) (pre @ rest) = ys @ Fields_from [] rest" by blast
      then have "Fields_from f ((c # pre) @ rest) = ys @ Fields_from [] rest"
        using nsp by simp
      then show ?thesis by (rule exI)
    qed
  qed
qed

lemma Fields_isToken: "v \<in> set (Fields s) \<longleftrightarrow> isToken v s"
proof
  assume "v \<in> set (Fields s)"
  then have mem: "v \<in> set (Fields_from [] s)" by (simp add: Fields_def)
  have ne: "v \<noteq> []" using Fields_from_nonempty [OF mem] .
  have sp: "\<forall>c \<in> set v. \<not> isSpace c" using Fields_from_spaceless [OF mem] by simp
  have "\<exists>pre post. s = pre @ v @ post \<and> (pre = [] \<or> isSpace (last pre)) \<and>
        (post = [] \<or> isSpace (hd post))"
    using Fields_from_place [OF mem]
  proof
    assume "startsField [] v s"
    then obtain post where "s = v @ post" "post = [] \<or> isSpace (hd post)"
      unfolding startsField_def by auto
    then show ?thesis by (intro exI [of _ "[]"] exI [of _ post]) simp
  next
    assume "laterField v s"
    then obtain pre post where "s = pre @ v @ post" "isSpace (last pre)"
      "post = [] \<or> isSpace (hd post)"
      unfolding laterField_def by blast
    then show ?thesis by (intro exI [of _ pre] exI [of _ post]) simp
  qed
  with ne sp show "isToken v s" unfolding isToken_def by simp
next
  assume "isToken v s"
  then obtain pre post where v: "v \<noteq> []" "\<forall>c \<in> set v. \<not> isSpace c"
    and s: "s = pre @ v @ post" and pre: "pre = [] \<or> isSpace (last pre)"
    and post: "post = [] \<or> isSpace (hd post)"
    unfolding isToken_def by blast
  have here: "v \<in> set (Fields_from [] (v @ post))"
    using Fields_from_run [OF v(2), of "[]" post] Fields_from_end [OF v(1) post] by simp
  show "v \<in> set (Fields s)"
  proof (cases "pre = []")
    case True
    with here s show ?thesis by (simp add: Fields_def)
  next
    case False
    with pre have "isSpace (last pre)" by simp
    from Fields_from_skip [OF False this, of "[]" "v @ post"] obtain ys
      where "Fields_from [] (pre @ v @ post) = ys @ Fields_from [] (v @ post)" by blast
    with here s show ?thesis by (simp add: Fields_def)
  qed
qed

lemma Fields_abc: "Fields ''a b c'' = [''a'', ''b'', ''c'']"
  by (simp add: Fields_def isSpace_def)

lemma Fields_ab: "Fields ''ab'' = [''ab'']"
  by (simp add: Fields_def isSpace_def)

section \<open>Attribute filters\<close>

text \<open>
  Claim C4. In loose mode an attribute satisfies the filter (key, val) exactly when its key is
  the filter's key and val is one whole whitespace-separated token of the attribute's value.
  The attribute class="a b c" satisfies (class, b) and class="ab" does not; an element with the
  first attribute is returned by the loose find-first test, and with the second the search goes
  on to the element's children.
\<close>

theorem loose_attribute_match:
  "(attributeContainsValue attr key val \<longleftrightarrow> Key attr = key \<and> isToken val (Val attr)) \<and>
   attributeContainsValue (Attribute ns ''class'' ''a b c'') ''class'' ''b'' \<and>
   \<not> attributeContainsValue (Attribute ns ''class'' ''ab'') ''class'' ''b'' \<and>
   findOnce p (Node ElementNode tag [Attribute ns ''class'' ''a b c''] cs) [tag, ''class'', ''b''] True False
     = Inr (Some p) \<and>
   findOnce p (Node ElementNode tag [Attribute ns ''class'' ''ab''] cs) [tag, ''class'', ''b''] True False
     = findOnce_children p 0 cs [tag, ''class'', ''b''] False"
proof (intro conjI)
  show "attributeContainsValue attr key val \<longleftrightarrow> Key attr = key \<and> isToken val (Val attr)"
    by (simp add: attributeContainsValue_def attributeContainsValue_range_mem Fields_isToken)
  show "attributeContainsValue (Attribute ns ''class'' ''a b c'') ''class'' ''b''"
    by (simp add: attributeContainsValue_def Fields_abc)
  show "\<not> attributeContainsValue (Attribute ns ''class'' ''ab'') ''class'' ''b''"
    by (simp add: attributeContainsValue_def Fields_ab)
  show "findOnce p (Node ElementNode tag [Attribute ns ''class'' ''a b c''] cs) [tag, ''class'', ''b''] True False
     = Inr (Some p)"
    by (simp add: findOnce_self_def attributeContainsValue_def Fields_abc)
  show "findOnce p (Node ElementNode tag [Attribute ns ''class'' ''ab''] cs) [tag, ''class'', ''b''] True False
     = findOnce_children p 0 cs [tag, ''class'', ''b''] False"
    by (simp add: findOnce_self_def attributeContainsValue_def Fields_ab)
qed

theorem loose_attribute_match_witness:
  "isToken ''b'' ''a b c'' \<and> \<not> isToken ''b'' ''ab''"
proof -
  have a: "attributeContainsValue (Attribute [] ''class'' ''a b c'') ''class'' ''b''"
    by (simp add: attributeContainsValue_def Fields_abc)
  have b: "\<not> attributeContainsValue (Attribute [] ''class'' ''ab'') ''class'' ''b''"
    by (simp add: attributeContainsValue_def Fields_ab)
  from a loose_attribute_match [of "Attribute [] ''class'' ''a b c''" "''class''" "''b''", THEN conjunct1]
  have "isToken ''b'' ''a b c''" by simp
  moreover from b loose_attribute_match [of "Attribute [] ''class'' ''ab''" "''class''" "''b''", THEN conjunct1]
  have "\<not> isToken ''b'' ''ab''" by simp
  ultimately show ?thesis by simp
qed

text \<open>
  Claim C5. In strict mode an attribute satisfies the filter (key, val) exactly when its key is
  the filter's key and its whole value is val. The attribute class="a b" does not satisfy
  (class, b) and satisfies (class, "a b"); an element with that attribute is passed over by the
  strict find-first test for the first filter and returned for the second.
\<close>

theorem strict_attribute_match:
  "(attributeAndValueEquals attr key val \<longleftrightarrow> Key attr = key \<and> Val attr = val) \<and>
   \<not> attributeAndValueEquals (Attribute ns ''class'' ''a b'') ''class'' ''b'' \<and>
   attributeAndValueEquals (Attribute ns ''class'' ''a b'') ''class'' ''a b'' \<and>
   findOnce p (Node ElementNode tag [Attribute ns ''class'' ''a b''] cs) [tag, ''class'', ''b''] True True
     = findOnce_children p 0 cs [tag, ''class'', ''b''] True \<and>
   findOnce p (Node ElementNode tag [Attribute ns ''class'' ''a b''] cs) [tag, ''class'', ''a b''] True True
     = Inr (Some p)"
  by (simp add: attributeAndValueEquals_def findOnce_self_def)

section \<open>The searches run over the nodes in document order\<close>

lemma firstMatch_append:
  "firstMatch (xs @ ys) args strict =
     (case firstMatch xs args strict of
        Inl e \<Rightarrow> Inl e
      | Inr (Some q) \<Rightarrow> Inr (Some q)
      | Inr None \<Rightarrow> firstMatch ys args strict)"
  by (induction xs args strict rule: firstMatch.induct) (simp_all split: sum.splits)

lemma allMatches_append:
  "allMatches (xs @ ys) args strict nodeLinks =
     (case allMatches xs args strict nodeLinks of
        Inl e \<Rightarrow> Inl e
      | Inr nodeLinks' \<Rightarrow> allMatches ys args strict nodeLinks')"
  by (induction xs args strict nodeLinks rule: allMatches.induct) (simp_all split: sum.splits)

lemma findOnce_firstMatch:
  "findOnce p n args uni strict =
     firstMatch (if uni then preorder p n else preorder_children p 0 (Children n)) args strict"
  "findOnce_children p i cs args strict = firstMatch (preorder_children p i cs) args strict"
proof (induction p n args uni strict and p i cs args strict rule: findOnce_findOnce_children.induct)
  case (1 p t d a cs args uni strict)
  then show ?case by (simp split: sum.splits)
next
  case (2 p i args strict)
  show ?case by simp
next
  case (3 p i c cs args strict)
  then show ?case by (simp add: firstMatch_append split: sum.splits option.splits)
qed

lemma findAllofem_f_allMatches:
  "findAllofem_f p n args uni strict nodeLinks =
     allMatches (if uni then preorder p n else preorder_children p 0 (Children n)) args strict nodeLinks"
  "findAllofem_children p i cs args strict nodeLinks =
     allMatches (preorder_children p i cs) args strict nodeLinks"
proof (induction p n args uni strict nodeLinks and p i cs args strict nodeLinks
    rule: findAllofem_f_findAllofem_children.induct)
  case (1 p t d a cs args uni strict nodeLinks)
  then show ?case by (simp split: sum.splits)
next
  case (2 p i args strict nodeLinks)
  show ?case by simp
next
  case (3 p i c cs args strict nodeLinks)
  then show ?case by (simp add: allMatches_append split: sum.splits)
qed

lemma deref_append:
  "deref doc (p @ r) = (case deref doc p of None \<Rightarrow> None | Some n \<Rightarrow> deref n r)"
  by (induction doc p rule: deref.induct) simp_all

lemma preorder_deref:
  "(q, m) \<in> set (preorder p n) \<Longrightarrow> \<exists>r. q = p @ r \<and> deref n r = Some m"
  "(q, m) \<in> set (preorder_children p i cs) \<Longrightarrow>
     \<exists>j r. j < length cs \<and> q = p @ (i + j) # r \<and> deref (cs ! j) r = Some m"
proof (induction p n and p i cs arbitrary: q m and q m rule: preorder_preorder_children.induct)
  case (1 p t d a cs)
  from "1.prems" have "(q, m) = (p, Node t d a cs) \<or> (q, m) \<in> set (preorder_children p 0 cs)"
    by simp
  then show ?case
  proof
    assume "(q, m) = (p, Node t d a cs)"
    then have "q = p @ [] \<and> deref (Node t d a cs) [] = Some m" by simp
    then show ?thesis by (rule exI)
  next
    assume "(q, m) \<in> set (preorder_children p 0 cs)"
    from "1.IH" [OF this] obtain j r where
      h: "j < length cs" "q = p @ (0 + j) # r" "deref (cs ! j) r = Some m" by blast
    then have "q = p @ (j # r) \<and> deref (Node t d a cs) (j # r) = Some m" by simp
    then show ?thesis by (rule exI)
  qed
next
  case (2 p i)
  then show ?case by simp
next
  case (3 p i c cs)
  from "3.prems" have "(q, m) \<in> set (preorder (p @ [i]) c) \<or>
      (q, m) \<in> set (preorder_children p (Suc i) cs)" by simp
  then show ?case
  proof
    assume "(q, m) \<in> set (preorder (p @ [i]) c)"
    from "3.IH"(1) [OF this] obtain r where h: "q = (p @ [i]) @ r" "deref c r = Some m" by blast
    then have "0 < length (c # cs) \<and> q = p @ (i + 0) # r \<and> deref ((c # cs) ! 0) r = Some m"
      by simp
    then show ?thesis by blast
  next
    assume "(q, m) \<in> set (preorder_children p (Suc i) cs)"
    from "3.IH"(2) [OF this] obtain j r where
      h: "j < length cs" "q = p @ (Suc i + j) # r" "deref (cs ! j) r = Some m" by blast
    then have "Suc j < length (c # cs) \<and> q = p @ (i + Suc j) # r \<and>
        deref ((c # cs) ! Suc j) r = Some m"
      by simp
    then show ?thesis by blast
  qed
qed

lemma deref_preorder:
  "deref n r = Some m \<Longrightarrow> (p @ r, m) \<in> set (preorder p n)"
  "j < length cs \<Longrightarrow> deref (cs ! j) r = Some m \<Longrightarrow>
     (p @ (i + j) # r, m) \<in> set (preorder_children p i cs)"
proof (induction p n and p i cs arbitrary: r m and j r m rule: preorder_preorder_children.induct)
  case (1 p t d a cs)
  show ?case
  proof (cases r)
    case Nil
    with "1.prems" have "m = Node t d a cs" by simp
    with Nil show ?thesis by simp
  next
    case (Cons j r')
    with "1.prems" have j: "j < length cs" and d: "deref (cs ! j) r' = Some m"
      by (simp_all split: if_splits)
    from "1.IH" [OF j d] Cons show ?thesis by simp
  qed
next
  case (2 p i)
  then show ?case by simp
next
  case (3 p i c cs)
  show ?case
  proof (cases j)
    case 0
    with "3.prems" have "deref c r = Some m" by simp
    from "3.IH"(1) [OF this] 0 show ?thesis by simp
  next
    case (Suc j')
    with "3.prems" have "j' < length cs" "deref (cs ! j') r = Some m" by simp_all
    from "3.IH"(2) [OF this] Suc show ?thesis by simp
  qed
qed

section \<open>What the find-first search returns\<close>

lemma firstMatch_Some:
  "firstMatch xs args strict = Inr (Some q) \<Longrightarrow>
     \<exists>m. (q, m) \<in> set xs \<and> findOnce_self m args strict = Inr True"
proof (induction xs args strict rule: firstMatch.induct)
  case (1 args strict)
  then show ?case by simp
next
  case (2 q' m' rest args strict)
  show ?case
  proof (cases "findOnce_self m' args strict")
    case (Inl e)
    with "2.prems" show ?thesis by simp
  next
    case (Inr found)
    show ?thesis
    proof (cases found)
      case True
      with Inr "2.prems" have "q = q'" by simp
      with Inr True show ?thesis by auto
    next
      case False
      with Inr "2.prems" have "firstMatch rest args strict = Inr (Some q)" by simp
      from "2.IH" [OF Inr False this] show ?thesis by auto
    qed
  qed
qed

lemma findOnce_self_True:
  "findOnce_self m args strict = Inr True \<Longrightarrow>
     Type m = ElementNode \<and> args \<noteq> [] \<and> Data m = args ! 0"
  by (simp add: findOnce_self_def split: if_splits)

lemma preorder_children_strict_prefix:
  "(q, m) \<in> set (preorder_children p i cs) \<Longrightarrow> strict_prefix p q"
  using preorder_deref(2) [of q m p i cs] by (auto simp: strict_prefix_def prefix_def)

lemma preorder_children_valid:
  assumes "deref doc p = Some n" and "(q, m) \<in> set (preorder_children p 0 (Children n))"
  shows "deref doc q = Some m"
proof -
  from preorder_deref(2) [OF assms(2)] obtain j r where
    h: "j < length (Children n)" "q = p @ (0 + j) # r" "deref (Children n ! j) r = Some m"
    by blast
  then show ?thesis using assms(1) by (simp add: deref_append)
qed

lemma findOnce_below:
  assumes "findOnce p n args False strict = Inr (Some q)"
  shows "\<exists>m. (q, m) \<in> set (preorder_children p 0 (Children n)) \<and>
     Type m = ElementNode \<and> args \<noteq> [] \<and> Data m = args ! 0"
proof -
  from assms have "firstMatch (preorder_children p 0 (Children n)) args strict = Inr (Some q)"
    by (simp add: findOnce_firstMatch(1))
  from firstMatch_Some [OF this] findOnce_self_True show ?thesis by blast
qed

lemma wrapNode_Pointer: "wrapNode doc (Some q) = Inr r' \<Longrightarrow> Pointer r' = Some q"
  by (auto simp: wrapNode_def split: option.splits)

lemma Find_found:
  assumes "Find doc r args = Inr r' \<or> FindStrict doc r args = Inr r'" and "Pointer r' = Some q"
  shows "\<exists>p n strict. Pointer r = Some p \<and> deref doc p = Some n \<and>
     findOnce p n args False strict = Inr (Some q)"
proof -
  from assms(2) have ne: "r' \<noteq> wrapErrf msg" for msg
    by (auto simp: wrapErrf_def wrapErr_def)
  from assms(1) show ?thesis
  proof
    assume a: "Find doc r args = Inr r'"
    with ne [of "''not enough arguments''"] have "length args \<noteq> 0"
      by (auto simp: Find_def)
    with a obtain p n where p: "Pointer r = Some p" "deref doc p = Some n"
      by (auto simp: Find_def split: option.splits)
    with a \<open>length args \<noteq> 0\<close> ne [of "notFound args"] obtain t
      where t: "findOnce p n args False False = Inr (Some t)" "wrapNode doc (Some t) = Inr r'"
      by (auto simp: Find_def split: sum.splits option.splits)
    from wrapNode_Pointer [OF t(2)] assms(2) have "t = q" by simp
    with p t(1) show ?thesis by blast
  next
    assume a: "FindStrict doc r args = Inr r'"
    with ne [of "''not enough arguments''"] have "length args \<noteq> 0"
      by (auto simp: FindStrict_def)
    with a obtain p n where p: "Pointer r = Some p" "deref doc p = Some n"
      by (auto simp: FindStrict_def split: option.splits)
    with a \<open>length args \<noteq> 0\<close> ne [of "notFound args"] obtain t
      where t: "findOnce p n args False True = Inr (Some t)" "wrapNode doc (Some t) = Inr r'"
      by (auto simp: FindStrict_def split: sum.splits option.splits)
    from wrapNode_Pointer [OF t(2)] assms(2) have "t = q" by simp
    with p t(1) show ?thesis by blast
  qed
qed

text \<open>
  Claim C2. Find and FindStrict never test the node they are called on: the result of the
  search from a node does not depend on that node's type, label or attributes; the search is
  the find-first test run over the nodes strictly below the node, in document order; a node
  it returns lies strictly below the start. The recursive descent tests the root of each
  subtree: the search with the flag set runs over the subtree's root and then the nodes below.
\<close>

theorem find_first_skips_start:
  "findOnce p (Node t d a cs) args False strict = findOnce p (Node t' d' a' cs) args False strict \<and>
   findOnce p n args False strict = firstMatch (preorder_children p 0 (Children n)) args strict \<and>
   (\<forall>q m. (q, m) \<in> set (preorder_children p 0 (Children n)) \<longrightarrow> strict_prefix p q) \<and>
   findOnce p n args True strict =
     firstMatch ((p, n) # preorder_children p 0 (Children n)) args strict \<and>
   (\<forall>r' q. Pointer r = Some p \<and> (Find doc r args = Inr r' \<or> FindStrict doc r args = Inr r') \<and>
      Pointer r' = Some q \<longrightarrow> strict_prefix p q)"
proof (intro conjI allI impI)
  show "findOnce p (Node t d a cs) args False strict = findOnce p (Node t' d' a' cs) args False strict"
    by simp
  show "findOnce p n args False strict = firstMatch (preorder_children p 0 (Children n)) args strict"
    by (simp add: findOnce_firstMatch(1))
  show "strict_prefix p q" if "(q, m) \<in> set (preorder_children p 0 (Children n))" for q m
    using that by (rule preorder_children_strict_prefix)
  show "findOnce p n args True strict =
     firstMatch ((p, n) # preorder_children p 0 (Children n)) args strict"
    by (cases n) (simp add: findOnce_firstMatch(1))
  show "strict_prefix p q"
    if h: "Pointer r = Some p \<and> (Find doc r args = Inr r' \<or> FindStrict doc r args = Inr r') \<and>
      Pointer r' = Some q" for r' q
  proof -
    from h Find_found [of doc r args r' q] obtain n strict
      where "findOnce p n args False strict = Inr (Some q)" by auto
    from findOnce_below [OF this] preorder_children_strict_prefix show ?thesis by blast
  qed
qed

theorem find_first_skips_start_witness:
  "Find (Node ElementNode ''a'' [] [Node ElementNode ''a'' [] []])
     \<lparr>Pointer = Some [], NodeValue = ''a'', Error = None\<rparr> [''a'']
     = Inr \<lparr>Pointer = Some [0], NodeValue = ''a'', Error = None\<rparr> \<and>
   strict_prefix [] [0 :: nat]"
proof -
  have f: "Find (Node ElementNode ''a'' [] [Node ElementNode ''a'' [] []])
     \<lparr>Pointer = Some [], NodeValue = ''a'', Error = None\<rparr> [''a'']
     = Inr \<lparr>Pointer = Some [0], NodeValue = ''a'', Error = None\<rparr>"
    by (simp add: Find_def findOnce_self_def wrapNode_def)
  have "Pointer \<lparr>Pointer = Some [], NodeValue = ''a'', Error = None\<rparr> = Some [] \<and>
     (Find (Node ElementNode ''a'' [] [Node ElementNode ''a'' [] []])
       \<lparr>Pointer = Some [], NodeValue = ''a'', Error = None\<rparr> [''a'']
       = Inr \<lparr>Pointer = Some [0], NodeValue = ''a'', Error = None\<rparr> \<or>
      FindStrict (Node ElementNode ''a'' [] [Node ElementNode ''a'' [] []])
       \<lparr>Pointer = Some [], NodeValue = ''a'', Error = None\<rparr> [''a'']
       = Inr \<lparr>Pointer = Some [0], NodeValue = ''a'', Error = None\<rparr>) \<and>
     Pointer \<lparr>Pointer = Some [0], NodeValue = ''a'', Error = None\<rparr> = Some [0]"
    using f by simp
  with find_first_skips_start [where p = "[]" and args = "[''a'']"
      and r = "\<lparr>Pointer = Some [], NodeValue = ''a'', Error = None\<rparr>"
      and doc = "Node ElementNode ''a'' [] [Node ElementNode ''a'' [] []]"]
  have "strict_prefix [] [0 :: nat]" by blast
  with f show ?thesis by simp
qed

section \<open>What the find-all search returns\<close>

lemma allMatches_tag:
  "allMatches xs [tag] strict nodeLinks =
     Inr (nodeLinks @ map fst (filter (\<lambda>(q, m). Data m = tag) xs))"
  by (induction xs "[tag]" strict nodeLinks rule: allMatches.induct)
     (simp_all add: findAllofem_self_def)

lemma wrapAll_valid:
  "\<forall>(q, m) \<in> set xs. deref doc q = Some m \<Longrightarrow>
   wrapAll doc (map fst xs) =
     Inr (map (\<lambda>(q, m). \<lparr>Pointer = Some q, NodeValue = Data m, Error = None\<rparr>) xs)"
  by (induction xs) (auto simp: wrapNode_def)

lemma FindAll_tag:
  assumes "Pointer r = Some p" and "deref doc p = Some n"
  shows "FindAll doc r [tag] =
     Inr (map (\<lambda>(q, m). \<lparr>Pointer = Some q, NodeValue = Data m, Error = None\<rparr>)
       (filter (\<lambda>(q, m). Data m = tag) (preorder_children p 0 (Children n))))"
proof -
  let ?xs = "filter (\<lambda>(q, m). Data m = tag) (preorder_children p 0 (Children n))"
  have temp: "findAllofem p n [tag] False = Inr (map fst ?xs)"
    by (simp add: findAllofem_def findAllofem_f_allMatches(1) allMatches_tag)
  have "\<forall>(q, m) \<in> set ?xs. deref doc q = Some m"
    using preorder_children_valid [OF assms(2)] by auto
  from wrapAll_valid [OF this] have w: "wrapAll doc (map fst ?xs) =
     Inr (map (\<lambda>(q, m). \<lparr>Pointer = Some q, NodeValue = Data m, Error = None\<rparr>) ?xs)" .
  show ?thesis
  proof (cases "?xs = []")
    case True
    with temp assms show ?thesis by (simp add: FindAll_def)
  next
    case False
    with temp assms w show ?thesis by (simp add: FindAll_def)
  qed
qed

lemma FindAllStrict_tag:
  assumes "Pointer r = Some p" and "deref doc p = Some n"
  shows "FindAllStrict doc r [tag] =
     Inr (map (\<lambda>(q, m). \<lparr>Pointer = Some q, NodeValue = Data m, Error = None\<rparr>)
       (filter (\<lambda>(q, m). Data m = tag) (preorder_children p 0 (Children n))))"
proof -
  let ?xs = "filter (\<lambda>(q, m). Data m = tag) (preorder_children p 0 (Children n))"
  have temp: "findAllofem p n [tag] True = Inr (map fst ?xs)"
    by (simp add: findAllofem_def findAllofem_f_allMatches(1) allMatches_tag)
  have "\<forall>(q, m) \<in> set ?xs. deref doc q = Some m"
    using preorder_children_valid [OF assms(2)] by auto
  from wrapAll_valid [OF this] have w: "wrapAll doc (map fst ?xs) =
     Inr (map (\<lambda>(q, m). \<lparr>Pointer = Some q, NodeValue = Data m, Error = None\<rparr>) ?xs)" .
  show ?thesis
  proof (cases "?xs = []")
    case True
    with temp assms show ?thesis by (simp add: FindAllStrict_def)
  next
    case False
    with temp assms w show ?thesis by (simp add: FindAllStrict_def)
  qed
qed

lemma firstMatch_None:
  "\<forall>(q, m) \<in> set xs. findOnce_self m args strict = Inr False \<Longrightarrow>
   firstMatch xs args strict = Inr None"
  by (induction xs args strict rule: firstMatch.induct) auto

lemma Find_tag_not_found:
  assumes "Pointer r = Some p" and "deref doc p = Some n"
    and "\<forall>(q, m) \<in> set (preorder_children p 0 (Children n)).
       \<not> (Type m = ElementNode \<and> Data m = tag)"
  shows "Find doc r [tag] = Inr (wrapErrf (notFound [tag]))"
proof -
  from assms(3) have "\<forall>(q, m) \<in> set (preorder_children p 0 (Children n)).
      findOnce_self m [tag] False = Inr False"
    by (auto simp: findOnce_self_def)
  from firstMatch_None [OF this] have "findOnce p n [tag] False False = Inr None"
    by (simp add: findOnce_firstMatch(1))
  with assms(1,2) show ?thesis by (simp add: Find_def)
qed

lemma Find_no_args: "Find doc r [] = Inr (wrapErrf ''not enough arguments'')"
  by (simp add: Find_def)

lemma findOnce_self_two_args:
  "findOnce_self (Node ElementNode tag (attr # attrs) cs) [tag, key] strict = Inl IndexOutOfRange"
  by (simp add: findOnce_self_def)

lemma Find_two_args_first_child:
  assumes "Pointer r = Some p" and "deref doc p = Some n"
    and "Children n = Node ElementNode tag (attr # attrs) cs # rest"
  shows "Find doc r [tag, key] = Inl IndexOutOfRange"
proof -
  obtain t d a where n: "n = Node t d a (Node ElementNode tag (attr # attrs) cs # rest)"
    using assms(3) by (cases n) simp
  then have "findOnce p n [tag, key] False False = Inl IndexOutOfRange"
    by (simp add: findOnce_self_def)
  with assms(1,2) show ?thesis by (simp add: Find_def)
qed

lemma findOnce_self_many_args:
  "4 \<le> length args \<Longrightarrow> findOnce_self n args strict = Inr False"
  by (auto simp: findOnce_self_def)

text \<open>
  Claim C3. The find-all test compares nothing but the node's data with the tag name: with
  the tag alone it appends the node exactly when its data is the tag, whatever the node's
  type, and with any argument list it appends nothing to a node whose data differs from the
  tag. The find-first test returns a node, with the tag alone, exactly when the node is an
  element whose data is the tag, and never returns a node that is no element. So FindAll and
  FindAllStrict for a tag return the nodes below the start whose data is the tag, of any
  type, in document order: on the tree of <p>a<b>x</b><a>a</a></p> the two text nodes a and
  the element a, and on the tree of <p>a</p> the text node a, where Find reports that
  nothing was found. A node that Find or FindStrict returns is an element whose data is the
  tag name.
\<close>

theorem find_all_matches_text_node:
  "findAllofem_self p n [tag] strict nodeLinks =
     Inr (if Data n = tag then nodeLinks @ [p] else nodeLinks) \<and>
   findOnce_self n [tag] strict = Inr (Type n = ElementNode \<and> Data n = tag) \<and>
   (args \<noteq> [] \<and> Data n \<noteq> args ! 0 \<longrightarrow>
      findAllofem_self p n args strict nodeLinks = Inr nodeLinks \<and>
      findOnce_self n args strict = Inr False) \<and>
   (Type n \<noteq> ElementNode \<longrightarrow> findOnce_self n args strict = Inr False) \<and>
   findAllofem_self p (Node t tag a cs) [tag] strict nodeLinks = Inr (nodeLinks @ [p]) \<and>
   findOnce_self (Node t tag a cs) [tag] strict = Inr (t = ElementNode) \<and>
   (Pointer start = Some pos \<and> deref tree pos = Some node \<longrightarrow>
      FindAll tree start [tag] =
        Inr (map (\<lambda>(q, m). \<lparr>Pointer = Some q, NodeValue = Data m, Error = None\<rparr>)
          (filter (\<lambda>(q, m). Data m = tag) (preorder_children pos 0 (Children node)))) \<and>
      FindAllStrict tree start [tag] =
        Inr (map (\<lambda>(q, m). \<lparr>Pointer = Some q, NodeValue = Data m, Error = None\<rparr>)
          (filter (\<lambda>(q, m). Data m = tag) (preorder_children pos 0 (Children node))))) \<and>
   FindAll (Node ElementNode ''p'' []
        [Node TextNode ''a'' [] [], Node ElementNode ''b'' [] [Node TextNode ''x'' [] []],
         Node ElementNode ''a'' [] [Node TextNode ''a'' [] []]])
       \<lparr>Pointer = Some [], NodeValue = ''p'', Error = None\<rparr> [''a'']
     = Inr [\<lparr>Pointer = Some [0], NodeValue = ''a'', Error = None\<rparr>,
            \<lparr>Pointer = Some [2], NodeValue = ''a'', Error = None\<rparr>,
            \<lparr>Pointer = Some [2, 0], NodeValue = ''a'', Error = None\<rparr>] \<and>
   Find (Node ElementNode ''p'' []
        [Node TextNode ''a'' [] [], Node ElementNode ''b'' [] [Node TextNode ''x'' [] []],
         Node ElementNode ''a'' [] [Node TextNode ''a'' [] []]])
       \<lparr>Pointer = Some [], NodeValue = ''p'', Error = None\<rparr> [''a'']
     = Inr \<lparr>Pointer = Some [2], NodeValue = ''a'', Error = None\<rparr> \<and>
   FindAll (Node ElementNode ''p'' [] [Node TextNode ''a'' [] []])
       \<lparr>Pointer = Some [], NodeValue = ''p'', Error = None\<rparr> [''a'']
     = Inr [\<lparr>Pointer = Some [0], NodeValue = ''a'', Error = None\<rparr>] \<and>
   FindAllStrict (Node ElementNode ''p'' [] [Node TextNode ''a'' [] []])
       \<lparr>Pointer = Some [], NodeValue = ''p'', Error = None\<rparr> [''a'']
     = Inr [\<lparr>Pointer = Some [0], NodeValue = ''a'', Error = None\<rparr>] \<and>
   deref (Node ElementNode ''p'' [] [Node TextNode ''a'' [] []]) [0]
     = Some (Node TextNode ''a'' [] []) \<and>
   Find (Node ElementNode ''p'' [] [Node TextNode ''a'' [] []])
       \<lparr>Pointer = Some [], NodeValue = ''p'', Error = None\<rparr> [''a'']
     = Inr (wrapErrf ''element `a` with attributes `` not found'') \<and>
   (\<forall>r' q. (Find doc r args = Inr r' \<or> FindStrict doc r args = Inr r') \<and> Pointer r' = Some q \<longrightarrow>
      (\<exists>m. deref doc q = Some m \<and> Type m = ElementNode \<and> Data m = args ! 0))"
proof (intro conjI allI impI)
  show "findAllofem_self p n [tag] strict nodeLinks =
     Inr (if Data n = tag then nodeLinks @ [p] else nodeLinks)"
    by (simp add: findAllofem_self_def)
  show "findOnce_self n [tag] strict = Inr (Type n = ElementNode \<and> Data n = tag)"
    by (simp add: findOnce_self_def)
  show "findAllofem_self p n args strict nodeLinks = Inr nodeLinks"
    if "args \<noteq> [] \<and> Data n \<noteq> args ! 0"
    using that by (simp add: findAllofem_self_def)
  show "findOnce_self n args strict = Inr False" if "args \<noteq> [] \<and> Data n \<noteq> args ! 0"
    using that by (simp add: findOnce_self_def)
  show "findOnce_self n args strict = Inr False" if "Type n \<noteq> ElementNode"
    using that by (simp add: findOnce_self_def)
  show "findAllofem_self p (Node t tag a cs) [tag] strict nodeLinks = Inr (nodeLinks @ [p])"
    by (simp add: findAllofem_self_def)
  show "findOnce_self (Node t tag a cs) [tag] strict = Inr (t = ElementNode)"
    by (simp add: findOnce_self_def)
  show "FindAll tree start [tag] =
        Inr (map (\<lambda>(q, m). \<lparr>Pointer = Some q, NodeValue = Data m, Error = None\<rparr>)
          (filter (\<lambda>(q, m). Data m = tag) (preorder_children pos 0 (Children node))))"
    if "Pointer start = Some pos \<and> deref tree pos = Some node"
    using that by (intro FindAll_tag) simp_all
  show "FindAllStrict tree start [tag] =
        Inr (map (\<lambda>(q, m). \<lparr>Pointer = Some q, NodeValue = Data m, Error = None\<rparr>)
          (filter (\<lambda>(q, m). Data m = tag) (preorder_children pos 0 (Children node))))"
    if "Pointer start = Some pos \<and> deref tree pos = Some node"
    using that by (intro FindAllStrict_tag) simp_all
  show "FindAll (Node ElementNode ''p'' []
        [Node TextNode ''a'' [] [], Node ElementNode ''b'' [] [Node TextNode ''x'' [] []],
         Node ElementNode ''a'' [] [Node TextNode ''a'' [] []]])
       \<lparr>Pointer = Some [], NodeValue = ''p'', Error = None\<rparr> [''a'']
     = Inr [\<lparr>Pointer = Some [0], NodeValue = ''a'', Error = None\<rparr>,
            \<lparr>Pointer = Some [2], NodeValue = ''a'', Error = None\<rparr>,
            \<lparr>Pointer = Some [2, 0], NodeValue = ''a'', Error = None\<rparr>]"
    by (simp add: FindAll_def findAllofem_def findAllofem_self_def wrapNode_def)
  show "Find (Node ElementNode ''p'' []
        [Node TextNode ''a'' [] [], Node ElementNode ''b'' [] [Node TextNode ''x'' [] []],
         Node ElementNode ''a'' [] [Node TextNode ''a'' [] []]])
       \<lparr>Pointer = Some [], NodeValue = ''p'', Error = None\<rparr> [''a'']
     = Inr \<lparr>Pointer = Some [2], NodeValue = ''a'', Error = None\<rparr>"
    by (simp add: Find_def findOnce_self_def wrapNode_def)
  show "FindAll (Node ElementNode ''p'' [] [Node TextNode ''a'' [] []])
       \<lparr>Pointer = Some [], NodeValue = ''p'', Error = None\<rparr> [''a'']
     = Inr [\<lparr>Pointer = Some [0], NodeValue = ''a'', Error = None\<rparr>]"
    by (simp add: FindAll_def findAllofem_def findAllofem_self_def wrapNode_def)
  show "FindAllStrict (Node ElementNode ''p'' [] [Node TextNode ''a'' [] []])
       \<lparr>Pointer = Some [], NodeValue = ''p'', Error = None\<rparr> [''a'']
     = Inr [\<lparr>Pointer = Some [0], NodeValue = ''a'', Error = None\<rparr>]"
    by (simp add: FindAllStrict_def findAllofem_def findAllofem_self_def wrapNode_def)
  show "deref (Node ElementNode ''p'' [] [Node TextNode ''a'' [] []]) [0]
     = Some (Node TextNode ''a'' [] [])"
    by simp
  show "Find (Node ElementNode ''p'' [] [Node TextNode ''a'' [] []])
       \<lparr>Pointer = Some [], NodeValue = ''p'', Error = None\<rparr> [''a'']
     = Inr (wrapErrf ''element `a` with attributes `` not found'')"
    by (simp add: Find_def findOnce_self_def notFound_def)
  show "\<exists>m. deref doc q = Some m \<and> Type m = ElementNode \<and> Data m = args ! 0"
    if h: "(Find doc r args = Inr r' \<or> FindStrict doc r args = Inr r') \<and> Pointer r' = Some q"
    for r' q
  proof -
    from h Find_found [of doc r args r' q] obtain p n strict
      where d: "deref doc p = Some n" and f: "findOnce p n args False strict = Inr (Some q)"
      by auto
    from findOnce_below [OF f] obtain m
      where m: "(q, m) \<in> set (preorder_children p 0 (Children n))"
        "Type m = ElementNode" "Data m = args ! 0" by blast
    from preorder_children_valid [OF d m(1)] m(2,3) show ?thesis by simp
  qed
qed

theorem find_all_matches_text_node_witness:
  "Find (Node ElementNode ''p'' [] [Node TextNode ''a'' [] [], Node ElementNode ''a'' [] []])
       \<lparr>Pointer = Some [], NodeValue = ''p'', Error = None\<rparr> [''a'']
     = Inr \<lparr>Pointer = Some [1], NodeValue = ''a'', Error = None\<rparr> \<and>
   (\<exists>m. deref (Node ElementNode ''p'' [] [Node TextNode ''a'' [] [], Node ElementNode ''a'' [] []]) [1]
       = Some m \<and> Type m = ElementNode \<and> Data m = [''a''] ! 0) \<and>
   findAllofem_self [0] (Node ElementNode ''b'' [Attribute [] ''class'' ''y''] [])
       [''a'', ''class'', ''y''] False [] = Inr [] \<and>
   findOnce_self (Node TextNode ''a'' [] []) [''a'', ''class'', ''y''] False = Inr False \<and>
   FindAll (Node ElementNode ''p'' [] [Node TextNode ''a'' [] [], Node ElementNode ''a'' [] []])
       \<lparr>Pointer = Some [], NodeValue = ''p'', Error = None\<rparr> [''a'']
     = Inr [\<lparr>Pointer = Some [0], NodeValue = ''a'', Error = None\<rparr>,
            \<lparr>Pointer = Some [1], NodeValue = ''a'', Error = None\<rparr>]"
proof -
  let ?doc = "Node ElementNode ''p'' [] [Node TextNode ''a'' [] [], Node ElementNode ''a'' [] []]"
  let ?r = "\<lparr>Pointer = Some [], NodeValue = ''p'', Error = None\<rparr>"
  let ?r' = "\<lparr>Pointer = Some [1], NodeValue = ''a'', Error = None\<rparr>"
  let ?b = "Node ElementNode ''b'' [Attribute [] ''class'' ''y''] []"
  let ?t = "Node TextNode ''a'' [] []"
  have f: "Find ?doc ?r [''a''] = Inr ?r'"
    by (simp add: Find_def findOnce_self_def wrapNode_def)
  then have "(Find ?doc ?r [''a''] = Inr ?r' \<or> FindStrict ?doc ?r [''a''] = Inr ?r') \<and>
      Pointer ?r' = Some [1]"
    by simp
  with find_all_matches_text_node [where doc = ?doc and r = ?r and tree = ?doc
      and start = ?r and pos = "[]" and node = ?doc and tag = "''a''" and p = "[0]"
      and strict = False and nodeLinks = "[]" and args = "[''a'']"]
  have e: "\<exists>m. deref ?doc [1] = Some m \<and> Type m = ElementNode \<and> Data m = [''a''] ! 0"
    by blast
  have "[''a'', ''class'', ''y''] \<noteq> [] \<and> Data ?b \<noteq> [''a'', ''class'', ''y''] ! 0"
    by simp
  with find_all_matches_text_node [where doc = ?doc and r = ?r and tree = ?doc
      and start = ?r and pos = "[]" and node = ?doc and tag = "''a''" and p = "[0]"
      and strict = False and nodeLinks = "[]" and args = "[''a'', ''class'', ''y'']" and n = ?b]
  have b: "findAllofem_self [0] ?b [''a'', ''class'', ''y''] False [] = Inr []"
    by blast
  have "Type ?t \<noteq> ElementNode" by simp
  with find_all_matches_text_node [where doc = ?doc and r = ?r and tree = ?doc
      and start = ?r and pos = "[]" and node = ?doc and tag = "''a''" and p = "[0]"
      and strict = False and nodeLinks = "[]" and args = "[''a'', ''class'', ''y'']" and n = ?t]
  have t: "findOnce_self ?t [''a'', ''class'', ''y''] False = Inr False"
    by blast
  have "Pointer ?r = Some [] \<and> deref ?doc [] = Some ?doc" by simp
  with find_all_matches_text_node [where doc = ?doc and r = ?r and tree = ?doc
      and start = ?r and pos = "[]" and node = ?doc and tag = "''a''" and p = "[0]"
      and strict = False and nodeLinks = "[]" and args = "[''a'']"]
  have "FindAll ?doc ?r [''a''] =
      Inr (map (\<lambda>(q, m). \<lparr>Pointer = Some q, NodeValue = Data m, Error = None\<rparr>)
        (filter (\<lambda>(q, m). Data m = ''a'') (preorder_children [] 0 (Children ?doc))))"
    by blast
  then have a: "FindAll ?doc ?r [''a''] =
      Inr [\<lparr>Pointer = Some [0], NodeValue = ''a'', Error = None\<rparr>,
           \<lparr>Pointer = Some [1], NodeValue = ''a'', Error = None\<rparr>]"
    by simp
  show ?thesis by (intro conjI f e b t a)
qed

section \<open>Arity of the argument list\<close>

text \<open>
  Claim C1. Find and FindStrict on the tree of <div><a href="x"></a></div>. With no argument
  the result carries the error "not enough arguments". With the two arguments a, href the
  search reaches the element a, reads \<^verbatim>\<open>args[2]\<close> and panics with an index out of
  range; with the two arguments p, href it reaches no element p and reports that nothing was
  found. With four arguments no node is returned and the result is the not-found error.
\<close>

theorem find_two_arguments_panics:
  "Find (Node ElementNode ''div'' [] [Node ElementNode ''a'' [Attribute [] ''href'' ''x''] []])
       \<lparr>Pointer = Some [], NodeValue = ''div'', Error = None\<rparr> []
     = Inr (wrapErrf ''not enough arguments'') \<and>
   FindStrict (Node ElementNode ''div'' [] [Node ElementNode ''a'' [Attribute [] ''href'' ''x''] []])
       \<lparr>Pointer = Some [], NodeValue = ''div'', Error = None\<rparr> []
     = Inr (wrapErrf ''not enough arguments'') \<and>
   Find (Node ElementNode ''div'' [] [Node ElementNode ''a'' [Attribute [] ''href'' ''x''] []])
       \<lparr>Pointer = Some [], NodeValue = ''div'', Error = None\<rparr> [''a'', ''href'']
     = Inl IndexOutOfRange \<and>
   FindStrict (Node ElementNode ''div'' [] [Node ElementNode ''a'' [Attribute [] ''href'' ''x''] []])
       \<lparr>Pointer = Some [], NodeValue = ''div'', Error = None\<rparr> [''a'', ''href'']
     = Inl IndexOutOfRange \<and>
   Find (Node ElementNode ''div'' [] [Node ElementNode ''a'' [Attribute [] ''href'' ''x''] []])
       \<lparr>Pointer = Some [], NodeValue = ''div'', Error = None\<rparr> [''p'', ''href'']
     = Inr (wrapErrf ''element `p` with attributes `href` not found'') \<and>
   Find (Node ElementNode ''div'' [] [Node ElementNode ''a'' [Attribute [] ''href'' ''x''] []])
       \<lparr>Pointer = Some [], NodeValue = ''div'', Error = None\<rparr> [''a'', ''href'', ''x'', ''y'']
     = Inr (wrapErrf ''element `a` with attributes `href x y` not found'')"
  by (simp add: Find_def FindStrict_def findOnce_self_def notFound_def)

section \<open>Zero matches\<close>

text \<open>
  Claim C6. The tree of <div>a<b>x</b></div> has no element labelled a. Find for the tag a
  returns the not-found error, whose message names the tag and the (empty) attribute filter.
  FindAll for the tag a does not return the empty sequence: it returns the text node a.
\<close>

theorem find_all_not_empty_without_element:
  "list_all (\<lambda>(q, m). \<not> (Type m = ElementNode \<and> Data m = ''a''))
     (preorder [] (Node ElementNode ''div'' []
        [Node TextNode ''a'' [] [], Node ElementNode ''b'' [] [Node TextNode ''x'' [] []]])) \<and>
   Find (Node ElementNode ''div'' []
        [Node TextNode ''a'' [] [], Node ElementNode ''b'' [] [Node TextNode ''x'' [] []]])
       \<lparr>Pointer = Some [], NodeValue = ''div'', Error = None\<rparr> [''a'']
     = Inr \<lparr>Pointer = None, NodeValue = [],
            Error = Some ''element `a` with attributes `` not found''\<rparr> \<and>
   FindAll (Node ElementNode ''div'' []
        [Node TextNode ''a'' [] [], Node ElementNode ''b'' [] [Node TextNode ''x'' [] []]])
       \<lparr>Pointer = Some [], NodeValue = ''div'', Error = None\<rparr> [''a'']
     = Inr [\<lparr>Pointer = Some [0], NodeValue = ''a'', Error = None\<rparr>]"
  by (simp add: Find_def FindAll_def findAllofem_def findAllofem_self_def findOnce_self_def
      notFound_def wrapNode_def wrapErrf_def wrapErr_def)

section \<open>Repeated results\<close>

lemma findAllofem_attrs_count:
  "findAllofem_attrs p attrs [tag, key, val] strict nodeLinks =
     Inr (nodeLinks @ replicate (length (filter (\<lambda>attr.
       if strict then attributeAndValueEquals attr key val
       else attributeContainsValue attr key val) attrs)) p)"
proof (induction attrs arbitrary: nodeLinks)
  case Nil
  show ?case by simp
next
  case (Cons attr attrs)
  show ?case by (simp add: Cons.IH replicate_app_Cons_same)
qed

lemma findOnce_attrs_ex:
  "findOnce_attrs attrs [tag, key, val] strict =
     Inr (\<exists>attr \<in> set attrs.
       if strict then attributeAndValueEquals attr key val
       else attributeContainsValue attr key val)"
  by (induction attrs) simp_all

text \<open>
  Claim C8. The find-all test appends a node whose data is the tag once for every attribute of
  its list that satisfies the filter, and the find-first test returns it as soon as one
  attribute does. On the tree of <div><a class="x" class="x"></a></div>, FindAll and
  FindAllStrict for (a, class, x) return the element a twice; Find and FindStrict return
  it once.
\<close>

theorem find_all_repeats_node:
  "findAllofem_self p (Node t tag attrs cs) [tag, key, val] strict nodeLinks =
     Inr (nodeLinks @ replicate (length (filter (\<lambda>attr.
       if strict then attributeAndValueEquals attr key val
       else attributeContainsValue attr key val) attrs)) p) \<and>
   findOnce_self (Node ElementNode tag attrs cs) [tag, key, val] strict =
     Inr (\<exists>attr \<in> set attrs.
       if strict then attributeAndValueEquals attr key val
       else attributeContainsValue attr key val) \<and>
   FindAll (Node ElementNode ''div'' []
        [Node ElementNode ''a'' [Attribute [] ''class'' ''x'', Attribute [] ''class'' ''x''] []])
       \<lparr>Pointer = Some [], NodeValue = ''div'', Error = None\<rparr> [''a'', ''class'', ''x'']
     = Inr [\<lparr>Pointer = Some [0], NodeValue = ''a'', Error = None\<rparr>,
            \<lparr>Pointer = Some [0], NodeValue = ''a'', Error = None\<rparr>] \<and>
   FindAllStrict (Node ElementNode ''div'' []
        [Node ElementNode ''a'' [Attribute [] ''class'' ''x'', Attribute [] ''class'' ''x''] []])
       \<lparr>Pointer = Some [], NodeValue = ''div'', Error = None\<rparr> [''a'', ''class'', ''x'']
     = Inr [\<lparr>Pointer = Some [0], NodeValue = ''a'', Error = None\<rparr>,
            \<lparr>Pointer = Some [0], NodeValue = ''a'', Error = None\<rparr>] \<and>
   Find (Node ElementNode ''div'' []
        [Node ElementNode ''a'' [Attribute [] ''class'' ''x'', Attribute [] ''class'' ''x''] []])
       \<lparr>Pointer = Some [], NodeValue = ''div'', Error = None\<rparr> [''a'', ''class'', ''x'']
     = Inr \<lparr>Pointer = Some [0], NodeValue = ''a'', Error = None\<rparr> \<and>
   FindStrict (Node ElementNode ''div'' []
        [Node ElementNode ''a'' [Attribute [] ''class'' ''x'', Attribute [] ''class'' ''x''] []])
       \<lparr>Pointer = Some [], NodeValue = ''div'', Error = None\<rparr> [''a'', ''class'', ''x'']
     = Inr \<lparr>Pointer = Some [0], NodeValue = ''a'', Error = None\<rparr>"
proof -
  have fx: "Fields ''x'' = [''x'']"
    by (simp add: Fields_def isSpace_def)
  have a: "findAllofem_self p (Node t tag attrs cs) [tag, key, val] strict nodeLinks =
     Inr (nodeLinks @ replicate (length (filter (\<lambda>attr.
       if strict then attributeAndValueEquals attr key val
       else attributeContainsValue attr key val) attrs)) p)"
    by (simp add: findAllofem_self_def findAllofem_attrs_count)
  have b: "findOnce_self (Node ElementNode tag attrs cs) [tag, key, val] strict =
     Inr (\<exists>attr \<in> set attrs.
       if strict then attributeAndValueEquals attr key val
       else attributeContainsValue attr key val)"
    by (simp add: findOnce_self_def findOnce_attrs_ex)
  have c: "FindAll (Node ElementNode ''div'' []
        [Node ElementNode ''a'' [Attribute [] ''class'' ''x'', Attribute [] ''class'' ''x''] []])
       \<lparr>Pointer = Some [], NodeValue = ''div'', Error = None\<rparr> [''a'', ''class'', ''x'']
     = Inr [\<lparr>Pointer = Some [0], NodeValue = ''a'', Error = None\<rparr>,
            \<lparr>Pointer = Some [0], NodeValue = ''a'', Error = None\<rparr>]"
    by (simp add: FindAll_def findAllofem_def findAllofem_self_def attributeContainsValue_def fx
        wrapNode_def)
  have d: "FindAllStrict (Node ElementNode ''div'' []
        [Node ElementNode ''a'' [Attribute [] ''class'' ''x'', Attribute [] ''class'' ''x''] []])
       \<lparr>Pointer = Some [], NodeValue = ''div'', Error = None\<rparr> [''a'', ''class'', ''x'']
     = Inr [\<lparr>Pointer = Some [0], NodeValue = ''a'', Error = None\<rparr>,
            \<lparr>Pointer = Some [0], NodeValue = ''a'', Error = None\<rparr>]"
    by (simp add: FindAllStrict_def findAllofem_def findAllofem_self_def
        attributeAndValueEquals_def wrapNode_def)
  have e: "Find (Node ElementNode ''div'' []
        [Node ElementNode ''a'' [Attribute [] ''class'' ''x'', Attribute [] ''class'' ''x''] []])
       \<lparr>Pointer = Some [], NodeValue = ''div'', Error = None\<rparr> [''a'', ''class'', ''x'']
     = Inr \<lparr>Pointer = Some [0], NodeValue = ''a'', Error = None\<rparr>"
    by (simp add: Find_def findOnce_self_def attributeContainsValue_def fx wrapNode_def)
  have f: "FindStrict (Node ElementNode ''div'' []
        [Node ElementNode ''a'' [Attribute [] ''class'' ''x'', Attribute [] ''class'' ''x''] []])
       \<lparr>Pointer = Some [], NodeValue = ''div'', Error = None\<rparr> [''a'', ''class'', ''x'']
     = Inr \<lparr>Pointer = Some [0], NodeValue = ''a'', Error = None\<rparr>"
    by (simp add: FindStrict_def findOnce_self_def attributeAndValueEquals_def wrapNode_def)
  from a b c d e f show ?thesis by (intro conjI)
qed

section \<open>Shallow and full text\<close>

lemma Text_children_concat:
  "Text_children s ks = s @ concat (map Data (filter (\<lambda>k. Type k = TextNode) ks))"
  by (induction ks arbitrary: s) simp_all

lemma fullText_preorder:
  "textLeaves n \<Longrightarrow>
   fullText s n =
     s @ concat (map (\<lambda>(q, m). Data m) (filter (\<lambda>(q, m). Type m = TextNode) (preorder p n)))"
  "\<forall>c \<in> set cs. textLeaves c \<Longrightarrow>
   fullText_children s cs =
     s @ concat (map (\<lambda>(q, m). Data m)
       (filter (\<lambda>(q, m). Type m = TextNode) (preorder_children p i cs)))"
proof (induction s n and s cs arbitrary: p and p i rule: fullText_fullText_children.induct)
  case (1 s t d a cs)
  show ?case
  proof (cases "t = TextNode")
    case True
    with "1.prems" have "cs = []" by simp
    with True show ?thesis by simp
  next
    case False
    from "1.prems" have "\<forall>c \<in> set cs. textLeaves c" by simp
    from "1.IH" [OF False this, of p 0] False show ?thesis by simp
  qed
next
  case (2 s)
  show ?case by simp
next
  case (3 s k ks)
  from "3.prems" have k: "textLeaves k" and ks: "\<forall>c \<in> set ks. textLeaves c" by simp_all
  from "3.IH"(1) [OF k, of "p @ [i]"] "3.IH"(2) [OF ks, of p "Suc i"]
  show ?case by simp
qed

lemma fullText_children_concat:
  "(\<And>c s. c \<in> set cs \<Longrightarrow> fullText s c = s @ fullText [] c) \<Longrightarrow>
   fullText_children s cs = s @ concat (map (fullText []) cs)"
proof (induction cs arbitrary: s)
  case Nil
  show ?case by simp
next
  case (Cons k ks)
  have k: "fullText s k = s @ fullText [] k"
    by (rule Cons.prems) simp
  have "fullText_children (fullText s k) ks = fullText s k @ concat (map (fullText []) ks)"
  proof (rule Cons.IH)
    fix c s assume "c \<in> set ks"
    then have "c \<in> set (k # ks)" by simp
    then show "fullText s c = s @ fullText [] c" by (rule Cons.prems)
  qed
  then have "fullText_children s (k # ks) = fullText s k @ concat (map (fullText []) ks)"
    by simp
  also have "\<dots> = s @ fullText [] k @ concat (map (fullText []) ks)"
    by (subst k) simp
  finally show ?case by simp
qed

lemma fullText_builder: "fullText s n = s @ fullText [] n"
proof (induction n arbitrary: s)
  case (Node t d a cs)
  show ?case
  proof (cases "t = TextNode")
    case True
    then show ?thesis by simp
  next
    case False
    have "fullText_children s cs = s @ concat (map (fullText []) cs)" for s
      by (rule fullText_children_concat) (rule Node.IH)
    from this [of s] this [of "[]"] False show ?thesis by simp
  qed
qed

lemma fullText_node:
  "fullText [] n =
     (if Type n = TextNode then Data n else concat (map (fullText []) (Children n)))"
proof (cases n)
  case (Node t d a cs)
  have "fullText_children [] cs = [] @ concat (map (fullText []) cs)"
    by (rule fullText_children_concat) (rule fullText_builder)
  with Node show ?thesis by simp
qed

text \<open>
  Claim C7. For a root that points to the node \<open>n\<close>: Text returns the data of \<open>n\<close> when
  \<open>n\<close> is a text node, and otherwise the data of the children of \<open>n\<close> that are text
  nodes, in sibling order, joined; what lies below the children adds nothing. FullText
  returns the data of \<open>n\<close> when \<open>n\<close> is a text node, and otherwise the full texts of
  the children of \<open>n\<close> in sibling order, joined; for a subtree whose text nodes are
  leaves, as in every parsed document, that is the data of the text nodes of the whole subtree
  in document order, joined. On the tree of <p>Hello <b>world</b>!</p> Text is "Hello !" and
  FullText is "Hello world!".
\<close>

theorem text_and_full_text:
  assumes "Pointer r = Some p" and "deref doc p = Some n"
  shows "(Type n = TextNode \<longrightarrow> Text doc r = Inr (Data n)) \<and>
     (Type n \<noteq> TextNode \<longrightarrow>
        Text doc r = Inr (concat (map Data (filter (\<lambda>k. Type k = TextNode) (Children n))))) \<and>
     (Type n = TextNode \<longrightarrow> FullText doc r = Inr (Data n)) \<and>
     (Type n \<noteq> TextNode \<longrightarrow>
        FullText doc r = Inr (concat (map (fullText []) (Children n)))) \<and>
     (textLeaves n \<longrightarrow>
        FullText doc r = Inr (concat (map (\<lambda>(q, m). Data m)
          (filter (\<lambda>(q, m). Type m = TextNode) (preorder p n))))) \<and>
     Text (Node ElementNode ''p'' []
         [Node TextNode ''Hello '' [] [], Node ElementNode ''b'' [] [Node TextNode ''world'' [] []],
          Node TextNode ''!'' [] []])
       \<lparr>Pointer = Some [], NodeValue = ''p'', Error = None\<rparr> = Inr ''Hello !'' \<and>
     FullText (Node ElementNode ''p'' []
         [Node TextNode ''Hello '' [] [], Node ElementNode ''b'' [] [Node TextNode ''world'' [] []],
          Node TextNode ''!'' [] []])
       \<lparr>Pointer = Some [], NodeValue = ''p'', Error = None\<rparr> = Inr ''Hello world!''"
proof (intro conjI impI)
  show "Text doc r = Inr (Data n)" if "Type n = TextNode"
    using that assms by (simp add: Text_def)
  show "Text doc r = Inr (concat (map Data (filter (\<lambda>k. Type k = TextNode) (Children n))))"
    if "Type n \<noteq> TextNode"
    using that assms by (simp add: Text_def Text_children_concat)
  show "FullText doc r = Inr (Data n)" if "Type n = TextNode"
    using that assms fullText_node [of n] by (simp add: FullText_def)
  show "FullText doc r = Inr (concat (map (fullText []) (Children n)))" if "Type n \<noteq> TextNode"
    using that assms fullText_node [of n] by (simp add: FullText_def)
  show "FullText doc r = Inr (concat (map (\<lambda>(q, m). Data m)
          (filter (\<lambda>(q, m). Type m = TextNode) (preorder p n))))" if "textLeaves n"
    using fullText_preorder(1) [OF that, of "[]" p] assms by (simp add: FullText_def)
  show "Text (Node ElementNode ''p'' []
         [Node TextNode ''Hello '' [] [], Node ElementNode ''b'' [] [Node TextNode ''world'' [] []],
          Node TextNode ''!'' [] []])
       \<lparr>Pointer = Some [], NodeValue = ''p'', Error = None\<rparr> = Inr ''Hello !''"
    by (simp add: Text_def)
  show "FullText (Node ElementNode ''p'' []
         [Node TextNode ''Hello '' [] [], Node ElementNode ''b'' [] [Node TextNode ''world'' [] []],
          Node TextNode ''!'' [] []])
       \<lparr>Pointer = Some [], NodeValue = ''p'', Error = None\<rparr> = Inr ''Hello world!''"
    by (simp add: FullText_def)
qed

theorem text_and_full_text_witness:
  "Text (Node ElementNode ''p'' []
         [Node TextNode ''Hello '' [] [], Node ElementNode ''b'' [] [Node TextNode ''world'' [] []],
          Node TextNode ''!'' [] []])
       \<lparr>Pointer = Some [1], NodeValue = ''b'', Error = None\<rparr> = Inr ''world'' \<and>
   Text (Node ElementNode ''p'' []
         [Node TextNode ''Hello '' [] [], Node ElementNode ''b'' [] [Node TextNode ''world'' [] []],
          Node TextNode ''!'' [] []])
       \<lparr>Pointer = Some [0], NodeValue = ''Hello '', Error = None\<rparr> = Inr ''Hello '' \<and>
   FullText (Node ElementNode ''p'' []
         [Node TextNode ''Hello '' [] [], Node ElementNode ''b'' [] [Node TextNode ''world'' [] []],
          Node TextNode ''!'' [] []])
       \<lparr>Pointer = Some [], NodeValue = ''p'', Error = None\<rparr> = Inr ''Hello world!''"
proof -
  let ?b = "Node ElementNode ''b'' [] [Node TextNode ''world'' [] []]"
  let ?h = "Node TextNode ''Hello '' [] []"
  let ?doc = "Node ElementNode ''p'' [] [?h, ?b, Node TextNode ''!'' [] []]"
  have b: "Text ?doc \<lparr>Pointer = Some [1], NodeValue = ''b'', Error = None\<rparr> = Inr ''world''"
    using text_and_full_text [of "\<lparr>Pointer = Some [1], NodeValue = ''b'', Error = None\<rparr>"
        "[1]" ?doc ?b]
    by simp
  have h: "Text ?doc \<lparr>Pointer = Some [0], NodeValue = ''Hello '', Error = None\<rparr> = Inr ''Hello ''"
    using text_and_full_text [of "\<lparr>Pointer = Some [0], NodeValue = ''Hello '', Error = None\<rparr>"
        "[0]" ?doc ?h]
    by simp
  have f: "FullText ?doc \<lparr>Pointer = Some [], NodeValue = ''p'', Error = None\<rparr> = Inr ''Hello world!''"
    using text_and_full_text [of "\<lparr>Pointer = Some [], NodeValue = ''p'', Error = None\<rparr>"
        "[]" ?doc ?doc]
    by simp
  from b h f show ?thesis by (intro conjI)
qed

section \<open>Walking the siblings\<close>










section \<open>The attribute map\<close>

lemma getKeyValue_range_append:
  "getKeyValue_range kv (xs @ ys) = getKeyValue_range (getKeyValue_range kv xs) ys"
  by (induction xs arbitrary: kv) simp_all

lemma getKeyValue_range_other:
  "k \<notin> Key ` set attrs \<Longrightarrow> getKeyValue_range kv attrs k = kv k"
  by (induction attrs arbitrary: kv) simp_all

lemma dom_getKeyValue_range:
  "dom (getKeyValue_range kv attrs) = dom kv \<union> Key ` set attrs"
  by (induction attrs arbitrary: kv) auto

lemma getKeyValue_last_wins:
  assumes "attrs = pre @ a # post" and "Key a \<notin> Key ` set post"
  shows "getKeyValue attrs (Key a) = Some (Val a)"
proof -
  have "getKeyValue attrs = getKeyValue_range ((getKeyValue_range Map.empty pre)(Key a \<mapsto> Val a)) post"
    using assms(1) by (simp add: getKeyValue_def getKeyValue_range_append)
  with getKeyValue_range_other [OF assms(2)] show ?thesis by simp
qed

text \<open>
  Claim C10. For a root that points to the node \<open>n\<close>: when \<open>n\<close> is an element, Attrs
  returns a map whose keys are the keys of the attribute list of \<open>n\<close> and which gives
  each key the value of its last occurrence in the list; when \<open>n\<close> is no element, Attrs
  returns the nil map. The result depends on the document and the pointer only, so a second
  call on the same node returns the same map.
\<close>

theorem attrs_last_occurrence_wins:
  assumes "Pointer r = Some p" and "deref doc p = Some n"
  shows "(Type n = ElementNode \<longrightarrow>
       (\<exists>m. Attrs doc r = Inr (Some m) \<and> dom m = Key ` set (Attr n) \<and>
          (\<forall>pre a post. Attr n = pre @ a # post \<and> Key a \<notin> Key ` set post \<longrightarrow>
             m (Key a) = Some (Val a)))) \<and>
     (Type n \<noteq> ElementNode \<longrightarrow> Attrs doc r = Inr None) \<and>
     (Pointer r' = Pointer r \<longrightarrow> Attrs doc r' = Attrs doc r)"
proof (intro conjI impI)
  assume e: "Type n = ElementNode"
  have a: "Attrs doc r = Inr (Some (getKeyValue (Attr n)))"
    using assms e by (simp add: Attrs_def)
  have d: "dom (getKeyValue (Attr n)) = Key ` set (Attr n)"
    by (simp add: getKeyValue_def dom_getKeyValue_range)
  have l: "\<forall>pre a post. Attr n = pre @ a # post \<and> Key a \<notin> Key ` set post \<longrightarrow>
      getKeyValue (Attr n) (Key a) = Some (Val a)"
  proof (intro allI impI)
    fix pre a post
    assume h: "Attr n = pre @ a # post \<and> Key a \<notin> Key ` set post"
    then have h1: "Attr n = pre @ a # post" and h2: "Key a \<notin> Key ` set post" by simp_all
    from getKeyValue_last_wins [OF h1 h2]
    show "getKeyValue (Attr n) (Key a) = Some (Val a)" .
  qed
  show "\<exists>m. Attrs doc r = Inr (Some m) \<and> dom m = Key ` set (Attr n) \<and>
      (\<forall>pre a post. Attr n = pre @ a # post \<and> Key a \<notin> Key ` set post \<longrightarrow>
         m (Key a) = Some (Val a))"
    by (rule exI [of _ "getKeyValue (Attr n)"]) (intro conjI a d l)
next
  assume "Type n \<noteq> ElementNode"
  then show "Attrs doc r = Inr None" using assms by (simp add: Attrs_def)
next
  assume "Pointer r' = Pointer r"
  then show "Attrs doc r' = Attrs doc r" by (simp add: Attrs_def)
qed

theorem attrs_last_occurrence_wins_witness:
  "(\<exists>m. Attrs (Node ElementNode ''div'' []
           [Node ElementNode ''a'' [Attribute [] ''class'' ''x y'', Attribute [] ''class'' ''y''] [],
            Node TextNode ''t'' [] []])
         \<lparr>Pointer = Some [0], NodeValue = ''a'', Error = None\<rparr> = Inr (Some m) \<and>
       dom m = {''class''} \<and> m ''class'' = Some ''y'') \<and>
   Attrs (Node ElementNode ''div'' []
           [Node ElementNode ''a'' [Attribute [] ''class'' ''x y'', Attribute [] ''class'' ''y''] [],
            Node TextNode ''t'' [] []])
         \<lparr>Pointer = Some [1], NodeValue = ''t'', Error = None\<rparr> = Inr None"
proof -
  let ?a = "Node ElementNode ''a'' [Attribute [] ''class'' ''x y'', Attribute [] ''class'' ''y''] []"
  let ?t = "Node TextNode ''t'' [] []"
  let ?doc = "Node ElementNode ''div'' [] [?a, ?t]"
  let ?r = "\<lparr>Pointer = Some [0], NodeValue = ''a'', Error = None\<rparr>"
  let ?rt = "\<lparr>Pointer = Some [1], NodeValue = ''t'', Error = None\<rparr>"
  have pr: "Pointer ?r = Some [0]" and da: "deref ?doc [0] = Some ?a"
    and prt: "Pointer ?rt = Some [1]" and dt: "deref ?doc [1] = Some ?t"
    by simp_all
  have ea: "Type ?a = ElementNode" and et: "Type ?t \<noteq> ElementNode"
    by simp_all
  from attrs_last_occurrence_wins [OF pr da, THEN conjunct1, THEN mp, OF ea]
  obtain m where m: "Attrs ?doc ?r = Inr (Some m)" and d: "dom m = Key ` set (Attr ?a)"
    and l: "\<forall>pre a post. Attr ?a = pre @ a # post \<and> Key a \<notin> Key ` set post \<longrightarrow>
      m (Key a) = Some (Val a)"
    by (elim exE conjE)
  have "Attr ?a = [Attribute [] ''class'' ''x y''] @ Attribute [] ''class'' ''y'' # [] \<and>
      Key (Attribute [] ''class'' ''y'') \<notin> Key ` set []"
    by simp
  with l [rule_format, of "[Attribute [] ''class'' ''x y'']" "Attribute [] ''class'' ''y''" "[]"]
  have v: "m ''class'' = Some ''y''"
    by simp
  from d have d': "dom m = {''class''}" by simp
  have first: "\<exists>m. Attrs ?doc ?r = Inr (Some m) \<and> dom m = {''class''} \<and>
      m ''class'' = Some ''y''"
    by (rule exI [of _ m]) (intro conjI m d' v)
  from attrs_last_occurrence_wins [OF prt dt, THEN conjunct2, THEN conjunct1, THEN mp, OF et]
  have second: "Attrs ?doc ?rt = Inr None" .
  show ?thesis by (intro conjI first second)
qed

end
